theory Spec2Isabelle
  imports Complex_Main "HOL-Library.List_Lexorder" "HOL-Library.Multiset"
begin

section \<open>Python strings\<close>

text \<open>
  A Python \<open>str\<close> is a sequence of Unicode code points. A code point is a natural
  number and a string is a list of them, so that the non-breaking space \<open>"\xa0"\<close> is
  the one code point 160, and the order of \<open>sorted\<close> on strings is the lexicographic
  order of the lists.
\<close>

type_synonym codepoint = nat
type_synonym pystr = "codepoint list"

text \<open>\<open>py\<close> writes an ASCII literal as a Python string.\<close>

definition py :: "string \<Rightarrow> pystr" where
  "py s = map of_char s"

text \<open>
  \<open>str.isspace\<close> for one character, which is what \<open>str.strip()\<close> and
  \<open>str.split()\<close> without arguments test: the ASCII white space 9-13, 28-32, and
  the code points of bidirectional type WS, B or S or of category Zs.
\<close>

definition isspace :: "codepoint \<Rightarrow> bool" where
  "isspace c \<longleftrightarrow>
     (9 \<le> c \<and> c \<le> 13) \<or> (28 \<le> c \<and> c \<le> 32) \<or> c = 133 \<or> c = 160 \<or> c = 5760 \<or>
     (8192 \<le> c \<and> c \<le> 8202) \<or> c = 8232 \<or> c = 8233 \<or> c = 8239 \<or> c = 8287 \<or>
     c = 12288"

definition strip :: "pystr \<Rightarrow> pystr" where
  "strip s = rev (dropWhile isspace (rev (dropWhile isspace s)))"

text \<open>
  \<open>str.upper()\<close> maps every character on its full upper case, a string of one to
  three code points. On ASCII that is the letter's capital. The table for the code
  points from 128 on belongs to the Unicode database of the interpreter and is the
  parameter \<open>upper_full\<close>. \<open>str.lower()\<close> is likewise, but for the capital sigma
  its result depends on the position in the string, so the parameter \<open>lower_full\<close>
  receives the string and the index.
\<close>

record unicode =
  upper_full :: "codepoint \<Rightarrow> pystr"
  lower_full :: "pystr \<Rightarrow> nat \<Rightarrow> pystr"

definition ascii_upper :: "codepoint \<Rightarrow> codepoint" where
  "ascii_upper c = (if 97 \<le> c \<and> c \<le> 122 then c - 32 else c)"

definition ascii_lower :: "codepoint \<Rightarrow> codepoint" where
  "ascii_lower c = (if 65 \<le> c \<and> c \<le> 90 then c + 32 else c)"

definition upper :: "unicode \<Rightarrow> pystr \<Rightarrow> pystr" where
  "upper U s = concat (map (\<lambda>c. if c < 128 then [ascii_upper c] else upper_full U c) s)"

definition lower :: "unicode \<Rightarrow> pystr \<Rightarrow> pystr" where
  "lower U s =
     concat (map (\<lambda>i. if s ! i < 128 then [ascii_lower (s ! i)] else lower_full U s i)
       [0..<length s])"

text \<open>
  The tables under which the example inputs are evaluated. The examples are ASCII, and on
  ASCII text the two functions do not look at the tables.
\<close>

definition ascii_only :: unicode where
  "ascii_only = \<lparr>upper_full = (\<lambda>c. [c]), lower_full = (\<lambda>s i. [s ! i])\<rparr>"

section \<open>Excel helpers\<close>

text \<open>
  \<open>UTR_PATTERN = re.compile(r"[A-Za-z0-9]{6,}")\<close>. The character class holds the
  ASCII letters and digits only.
\<close>

definition alnum :: "codepoint \<Rightarrow> bool" where
  "alnum c \<longleftrightarrow> (65 \<le> c \<and> c \<le> 90) \<or> (97 \<le> c \<and> c \<le> 122) \<or> (48 \<le> c \<and> c \<le> 57)"

text \<open>
  \<open>UTR_PATTERN.findall\<close>: the scan tries a match at the current position; the
  greedy quantifier takes every character of the class that follows, and the match
  succeeds when there are six or more. After a match the scan goes on behind it, after
  a failure at the next position.
\<close>

function findall :: "pystr \<Rightarrow> pystr list" where
  "findall [] = []"
| "findall (c # cs) =
     (if 6 \<le> length (takeWhile alnum (c # cs))
      then takeWhile alnum (c # cs) # findall (dropWhile alnum (c # cs))
      else findall cs)"
  by pat_completeness auto
termination
proof (relation "measure length")
  fix c :: codepoint and cs :: pystr
  assume "6 \<le> length (takeWhile alnum (c # cs))"
  then have "alnum c"
    by (auto split: if_splits)
  then have "length (dropWhile alnum (c # cs)) \<le> length cs"
    by (simp add: length_dropWhile_le)
  then show "(dropWhile alnum (c # cs), c # cs) \<in> measure length"
    by simp
qed simp_all

text \<open>
  A cell of a data frame is either missing (\<open>pd.isna\<close> holds: \<open>None\<close>) or a value,
  of which the code only reads \<open>str(val)\<close> (\<open>Some\<close> of that string).
\<close>

type_synonym cell = "pystr option"

definition extract_utrs_from_cell :: "cell \<Rightarrow> pystr list" where
  "extract_utrs_from_cell val =
     (case val of None \<Rightarrow> [] | Some s \<Rightarrow> findall (strip s))"

text \<open>
  The tokens one cell adds to the identifier set, in the order of the inner loop of
  \<open>load_utrs_from_excel\<close>: \<open>token.strip().upper()\<close> for every token of the cell.
\<close>

definition cell_tokens :: "unicode \<Rightarrow> cell \<Rightarrow> pystr list" where
  "cell_tokens U val = map (\<lambda>token. upper U (strip token)) (extract_utrs_from_cell val)"

text \<open>\<open>s.replace("\xa0", " ")\<close>, \<open>s.split()\<close>, \<open>sep.join(parts)\<close> and \<open>sub in s\<close>.\<close>

definition replace_nbsp :: "pystr \<Rightarrow> pystr" where
  "replace_nbsp s = map (\<lambda>c. if c = 160 then 32 else c) s"

fun split_from :: "pystr \<Rightarrow> pystr \<Rightarrow> pystr list" where
  "split_from cur [] = (if cur = [] then [] else [rev cur])"
| "split_from cur (c # cs) =
     (if isspace c then (if cur = [] then [] else [rev cur]) @ split_from [] cs
      else split_from (c # cur) cs)"

definition split :: "pystr \<Rightarrow> pystr list" where
  "split s = split_from [] s"

fun join :: "pystr \<Rightarrow> pystr list \<Rightarrow> pystr" where
  "join sep [] = []"
| "join sep [x] = x"
| "join sep (x # y # ys) = x @ sep @ join sep (y # ys)"

fun contains :: "pystr \<Rightarrow> pystr \<Rightarrow> bool" where
  "contains sub [] = (sub = [])"
| "contains sub (c # cs) = (take (length sub) (c # cs) = sub \<or> contains sub cs)"

text \<open>
  A column label is \<open>None\<close> or an object of which the code reads \<open>str(s)\<close>.
\<close>

definition normalize_header :: "unicode \<Rightarrow> pystr option \<Rightarrow> pystr" where
  "normalize_header U h =
     (let s = (case h of None \<Rightarrow> [] | Some t \<Rightarrow> t);
          s = replace_nbsp s;
          s = join (py '' '') (split s)
      in lower U (strip s))"

definition looks_like_utr_header :: "unicode \<Rightarrow> pystr option \<Rightarrow> bool" where
  "looks_like_utr_header U h = contains (py ''utr'') (normalize_header U h)"

text \<open>
  What \<open>pandas\<close> returns is data of the model. A data frame is the list of its columns,
  each the label and the cells below it, in the order of \<open>df.columns\<close>; labels are unique,
  as \<open>read_excel\<close> makes them. A sheet gives for every header row \<open>hdr\<close> the result of
  \<open>pd.read_excel(f, sheet_name=sheet, header=hdr)\<close>, \<open>None\<close> when it raises. An uploaded
  file has its name and the sheets of \<open>pd.ExcelFile(f)\<close> in the order of
  \<open>xls.sheet_names\<close>, \<open>None\<close> when opening raises.
\<close>

type_synonym column = "pystr option \<times> cell list"
type_synonym dataframe = "column list"
type_synonym sheet = "nat \<Rightarrow> dataframe option"

record excel_file =
  excel_name :: pystr
  excel_sheets :: "sheet list option"

text \<open>
  The ways a run stops before its end. The first four are the \<open>st.stop()\<close> calls of the
  script, in the order of the source; the last is the exception of \<open>fitz.open\<close> on bytes
  that are no PDF, which nothing catches.
\<close>

datatype error =
    UnableToOpenExcel pystr
  | NoUtrColumn pystr
  | MissingInputs
  | NoReferenceIds
  | PdfOpenFailed

text \<open>\<open>for c in df.columns: if looks_like_utr_header(c): utr_col = c; break\<close>\<close>

fun find_utr_col :: "unicode \<Rightarrow> dataframe \<Rightarrow> column option" where
  "find_utr_col U [] = None"
| "find_utr_col U (c # cs) =
     (if looks_like_utr_header U (fst c) then Some c else find_utr_col U cs)"

text \<open>
  \<open>for val in df[utr_col].dropna(): for token in extract_utrs_from_cell(val):
  utrs.add(token.strip().upper())\<close>
\<close>

definition add_tokens :: "unicode \<Rightarrow> cell list \<Rightarrow> pystr set \<Rightarrow> pystr set" where
  "add_tokens U cells utrs =
     fold (\<lambda>val utrs. fold (\<lambda>token utrs. insert (upper U (strip token)) utrs)
                          (extract_utrs_from_cell val) utrs)
       (filter (\<lambda>val. val \<noteq> None) cells) utrs"

text \<open>
  The loop over the header rows of one sheet. \<open>Some\<close> is the \<open>break\<close> with
  \<open>found = True\<close> and the set after the additions; \<open>None\<close> is the end of the loop
  with \<open>found\<close> still \<open>False\<close>.
\<close>

fun scan_headers :: "unicode \<Rightarrow> sheet \<Rightarrow> nat list \<Rightarrow> pystr set \<Rightarrow> pystr set option" where
  "scan_headers U sh [] utrs = None"
| "scan_headers U sh (hdr # hdrs) utrs =
     (case sh hdr of
        None \<Rightarrow> scan_headers U sh hdrs utrs
      | Some df \<Rightarrow>
          (case find_utr_col U df of
             None \<Rightarrow> scan_headers U sh hdrs utrs
           | Some utr_col \<Rightarrow> Some (add_tokens U (snd utr_col) utrs)))"

fun scan_sheets :: "unicode \<Rightarrow> sheet list \<Rightarrow> pystr set \<Rightarrow> pystr set option" where
  "scan_sheets U [] utrs = None"
| "scan_sheets U (sh # shs) utrs =
     (case scan_headers U sh [0..<5] utrs of
        Some utrs' \<Rightarrow> Some utrs'
      | None \<Rightarrow> scan_sheets U shs utrs)"

fun load_files :: "unicode \<Rightarrow> excel_file list \<Rightarrow> pystr set \<Rightarrow> error + pystr set" where
  "load_files U [] utrs = Inr utrs"
| "load_files U (f # fs) utrs =
     (case excel_sheets f of
        None \<Rightarrow> Inl (UnableToOpenExcel (excel_name f))
      | Some shs \<Rightarrow>
          (case scan_sheets U shs utrs of
             None \<Rightarrow> Inl (NoUtrColumn (excel_name f))
           | Some utrs' \<Rightarrow> load_files U fs utrs'))"

definition load_utrs_from_excel :: "unicode \<Rightarrow> excel_file list \<Rightarrow> error + pystr set" where
  "load_utrs_from_excel U excel_files = load_files U excel_files {}"

section \<open>PDF helpers\<close>

text \<open>
  Coordinates are Python floats; the model takes them as real numbers, so that the sum
  \<open>x0_band + 140.0\<close> and the product \<open>page_height * 0.18\<close> are exact. A word is
  the tuple \<open>(x0, y0, x1, y1, wtxt, ...)\<close> of \<open>page.get_text("words")\<close>. Of a page the
  code reads \<open>page.rect.x0\<close>, \<open>page.rect.x1\<close>, \<open>page.rect.height\<close> and the words,
  \<open>None\<close> when \<open>get_text\<close> raises.
\<close>

record word =
  x0 :: real
  y0 :: real
  x1 :: real
  y1 :: real
  wtxt :: pystr

record page =
  rect_x0 :: real
  rect_x1 :: real
  rect_height :: real
  get_text :: "word list option"

definition HEADER_Y_TOP_RATIO :: real where
  "HEADER_Y_TOP_RATIO = 0.18"

definition DEFAULT_LEFT_BAND_WIDTH :: real where
  "DEFAULT_LEFT_BAND_WIDTH = 140.0"

datatype band_mode = Manual | Auto | Fallback

text \<open>A highlight annotation is the rectangle \<open>fitz.Rect(x0, y0, x1, y1)\<close> it covers.\<close>

type_synonym rect = "real \<times> real \<times> real \<times> real"

text \<open>The line a page appends to \<open>logs\<close>, by its fields.\<close>

record log_line =
  pno :: nat
  total_words :: nat
  hits :: nat
  x0_band :: real
  x1_band :: real
  band_mode :: band_mode

section \<open>Fast left-column highlighter\<close>

text \<open>
  The first loop over the words of a page: \<open>sample_left_x\<close> is the \<open>x0\<close> of the first
  word that is not above \<open>y_min\<close> and whose text, stripped and in upper case, is in the
  set; \<open>None\<close> when the loop ends without \<open>break\<close>.
\<close>

fun sample_left_x :: "unicode \<Rightarrow> pystr set \<Rightarrow> real \<Rightarrow> word list \<Rightarrow> real option" where
  "sample_left_x U utrs_upper y_min [] = None"
| "sample_left_x U utrs_upper y_min (w # ws) =
     (if y0 w < y_min then sample_left_x U utrs_upper y_min ws
      else if upper U (strip (wtxt w)) \<in> utrs_upper then Some (x0 w)
      else sample_left_x U utrs_upper y_min ws)"

definition compute_band ::
  "real \<Rightarrow> real \<Rightarrow> real option \<Rightarrow> real option \<Rightarrow> real \<times> real \<times> band_mode" where
  "compute_band page_left page_right manual_x1 sample =
     (case manual_x1 of
        Some m \<Rightarrow> (page_left, m, Manual)
      | None \<Rightarrow>
          (case sample of
             Some s \<Rightarrow> (s, min page_right (s + DEFAULT_LEFT_BAND_WIDTH), Auto)
           | None \<Rightarrow>
               (page_left, min (page_left + DEFAULT_LEFT_BAND_WIDTH) page_right, Fallback)))"

text \<open>
  The second loop over the words. Its state is \<open>kept\<close>, \<open>found_map\<close> and the
  annotations \<open>add_visual_highlight\<close> has put on the page, in the order they were added;
  the renderer is taken to accept every rectangle.
\<close>

fun match_words ::
  "unicode \<Rightarrow> pystr set \<Rightarrow> real \<Rightarrow> real \<Rightarrow> real \<Rightarrow> word list \<Rightarrow>
   nat \<times> (pystr \<rightharpoonup> bool) \<times> rect list \<Rightarrow> nat \<times> (pystr \<rightharpoonup> bool) \<times> rect list" where
  "match_words U utrs_upper y_min xb0 xb1 [] st = st"
| "match_words U utrs_upper y_min xb0 xb1 (w # ws) (kept, found_map, annots) =
     (if y0 w < y_min then match_words U utrs_upper y_min xb0 xb1 ws (kept, found_map, annots)
      else if \<not> (x0 w \<ge> xb0 \<and> x1 w \<le> xb1)
        then match_words U utrs_upper y_min xb0 xb1 ws (kept, found_map, annots)
      else if upper U (strip (wtxt w)) \<in> utrs_upper
        then match_words U utrs_upper y_min xb0 xb1 ws
               (kept + 1, found_map(upper U (strip (wtxt w)) \<mapsto> True),
                annots @ [(x0 w, y0 w, x1 w, y1 w)])
      else match_words U utrs_upper y_min xb0 xb1 ws (kept, found_map, annots))"

text \<open>
  The body of the loop over the pages: \<open>words = page.get_text("words") or []\<close> with the
  exception caught, the band, the matching pass, the log line.
\<close>

definition page_words :: "page \<Rightarrow> word list" where
  "page_words pg = (case get_text pg of None \<Rightarrow> [] | Some ws \<Rightarrow> ws)"

definition page_y_min :: "page \<Rightarrow> real" where
  "page_y_min pg = rect_height pg * HEADER_Y_TOP_RATIO"

definition page_band :: "unicode \<Rightarrow> pystr set \<Rightarrow> real option \<Rightarrow> page \<Rightarrow> real \<times> real \<times> band_mode" where
  "page_band U utrs_upper manual_x1 pg =
     compute_band (rect_x0 pg) (rect_x1 pg) manual_x1
       (sample_left_x U utrs_upper (page_y_min pg) (page_words pg))"

definition process_page ::
  "unicode \<Rightarrow> pystr set \<Rightarrow> real option \<Rightarrow> nat \<Rightarrow> page \<Rightarrow> (pystr \<rightharpoonup> bool) \<Rightarrow>
   rect list \<times> (pystr \<rightharpoonup> bool) \<times> log_line" where
  "process_page U utrs_upper manual_x1 n pg found_map =
     (let words = page_words pg;
          (xb0, xb1, mode) = page_band U utrs_upper manual_x1 pg;
          (kept, found_map', annots) =
             match_words U utrs_upper (page_y_min pg) xb0 xb1 words (0, found_map, [])
      in (annots, found_map',
          \<lparr>pno = n, total_words = length words, hits = kept,
           x0_band = xb0, x1_band = xb1, band_mode = mode\<rparr>))"

text \<open>
  \<open>for pno, page in enumerate(doc, start=1)\<close>. The state is the annotations of the
  pages done, \<open>found_map\<close> and \<open>logs\<close>.
\<close>

fun pages_loop ::
  "unicode \<Rightarrow> pystr set \<Rightarrow> real option \<Rightarrow> nat \<Rightarrow> page list \<Rightarrow>
   rect list list \<times> (pystr \<rightharpoonup> bool) \<times> log_line list \<Rightarrow>
   rect list list \<times> (pystr \<rightharpoonup> bool) \<times> log_line list" where
  "pages_loop U utrs_upper manual_x1 n [] st = st"
| "pages_loop U utrs_upper manual_x1 n (pg # pgs) (out, found_map, logs) =
     (case process_page U utrs_upper manual_x1 n pg found_map of
        (annots, found_map', entry) \<Rightarrow>
          pages_loop U utrs_upper manual_x1 (Suc n) pgs
            (out @ [annots], found_map', logs @ [entry]))"

text \<open>
  The uploaded bytes are the document \<open>fitz.open\<close> makes of them, the list of its
  pages, or \<open>None\<close> when \<open>fitz.open\<close> raises. The result is the saved document (the
  annotations of every page), \<open>found_map\<close> and \<open>logs\<close>. The colour and the opacity
  only reach the renderer and are left out.
\<close>

type_synonym pdf_bytes = "page list option"

definition highlight_left_column_fast ::
  "unicode \<Rightarrow> pdf_bytes \<Rightarrow> pystr set \<Rightarrow> real option \<Rightarrow>
   error + rect list list \<times> (pystr \<rightharpoonup> bool) \<times> log_line list" where
  "highlight_left_column_fast U pdf utrs_upper manual_x1 =
     (case pdf of
        None \<Rightarrow> Inl PdfOpenFailed
      | Some doc \<Rightarrow>
          Inr (pages_loop U utrs_upper manual_x1 1 doc
                 ([], (\<lambda>u. if u \<in> utrs_upper then Some False else None), [])))"

section \<open>The action of the start button\<close>

record pdf_file =
  pdf_name :: pystr
  pdf_read :: pdf_bytes

type_synonym csv_row = "pystr \<times> bool"

text \<open>
  \<open>DataFrame.drop_duplicates()\<close> keeps the first of the rows that are equal in every
  column, in the order of the frame.
\<close>

fun drop_seen :: "'a list \<Rightarrow> 'a list \<Rightarrow> 'a list" where
  "drop_seen seen [] = []"
| "drop_seen seen (r # rs) =
     (if r \<in> set seen then drop_seen seen rs else r # drop_seen (r # seen) rs)"

definition drop_duplicates :: "'a list \<Rightarrow> 'a list" where
  "drop_duplicates rows = drop_seen [] rows"

text \<open>
  The variables the loop over the PDF files changes: the annotated documents written to
  the archive (without the names of its members), \<open>csv_rows\<close>, \<open>all_logs\<close>, and
  \<open>found_map\<close>, which every file binds anew (the empty map before the first).
\<close>

record run_state =
  zip_pdfs :: "rect list list list"
  csv_rows :: "csv_row list"
  all_logs :: "(pystr \<times> log_line) list"
  found_map :: "pystr \<rightharpoonup> bool"

definition init_state :: run_state where
  "init_state = \<lparr>zip_pdfs = [], csv_rows = [], all_logs = [], found_map = Map.empty\<rparr>"

definition get_found :: "(pystr \<rightharpoonup> bool) \<Rightarrow> pystr \<Rightarrow> bool" where
  "get_found fm u = (case fm u of None \<Rightarrow> False | Some b \<Rightarrow> b)"

fun pdf_loop ::
  "unicode \<Rightarrow> pystr set \<Rightarrow> real option \<Rightarrow> pdf_file list \<Rightarrow> run_state \<Rightarrow> error + run_state" where
  "pdf_loop U utr_set_upper manual_x1 [] st = Inr st"
| "pdf_loop U utr_set_upper manual_x1 (f # fs) st =
     (case highlight_left_column_fast U (pdf_read f) utr_set_upper manual_x1 of
        Inl e \<Rightarrow> Inl e
      | Inr (out_pdf, fm, logs) \<Rightarrow>
          pdf_loop U utr_set_upper manual_x1 fs
            \<lparr>zip_pdfs = zip_pdfs st @ [out_pdf],
             csv_rows = csv_rows st @
               map (\<lambda>u. (u, get_found fm u)) (sorted_list_of_set utr_set_upper),
             all_logs = all_logs st @ map (\<lambda>entry. (pdf_name f, entry)) logs,
             found_map = fm\<rparr>)"

text \<open>
  What a run that reaches its end has produced: the highlighted documents and the rows
  of \<open>Reference_report.csv\<close> (columns \<open>Reference\<close>, \<open>found\<close>), and the debug log.
\<close>

record run_output =
  highlighted :: "rect list list list"
  report :: "csv_row list"
  debug_log :: "(pystr \<times> log_line) list"

definition start ::
  "unicode \<Rightarrow> excel_file list \<Rightarrow> pdf_file list \<Rightarrow> bool \<Rightarrow> int \<Rightarrow> error + run_output" where
  "start U excel_files pdf_files manual_band manual_x1 =
     (if excel_files = [] \<or> pdf_files = [] then Inl MissingInputs
      else case load_utrs_from_excel U excel_files of
        Inl e \<Rightarrow> Inl e
      | Inr utr_set_upper \<Rightarrow>
          if utr_set_upper = {} then Inl NoReferenceIds
          else case pdf_loop U utr_set_upper
                      (if manual_band then Some (real_of_int manual_x1) else None)
                      pdf_files init_state of
            Inl e \<Rightarrow> Inl e
          | Inr st \<Rightarrow>
              Inr \<lparr>highlighted = zip_pdfs st,
                   report = drop_duplicates (csv_rows st),
                   debug_log = take 150 (all_logs st)\<rparr>)"

text \<open>
  The flag of the identifier \<open>u\<close> in \<open>found_map\<close> once the loop has gone through the
  files \<open>fs\<close>: \<open>None\<close> when a file stopped the loop or \<open>u\<close> has no entry.
\<close>

definition found_after ::
  "unicode \<Rightarrow> pystr set \<Rightarrow> real option \<Rightarrow> pdf_file list \<Rightarrow> pystr \<Rightarrow> bool option" where
  "found_after U utr_set_upper manual_x1 fs u =
     (case pdf_loop U utr_set_upper manual_x1 fs init_state of
        Inl e \<Rightarrow> None
      | Inr st \<Rightarrow> found_map st u)"

section \<open>Derived notions\<close>

text \<open>
  The words of a page the matching pass highlights, and the log line of the page, written
  without the loop state; \<open>process_page_eq\<close> below shows that the page loop computes
  them.
\<close>

definition rect_of :: "word \<Rightarrow> rect" where
  "rect_of w = (x0 w, y0 w, x1 w, y1 w)"

definition page_hits :: "unicode \<Rightarrow> pystr set \<Rightarrow> real option \<Rightarrow> page \<Rightarrow> word list" where
  "page_hits U utrs mx pg =
     (case page_band U utrs mx pg of
        (xb0, xb1, mode) \<Rightarrow>
          filter (\<lambda>w. \<not> y0 w < page_y_min pg \<and> (xb0 \<le> x0 w \<and> x1 w \<le> xb1) \<and>
                      upper U (strip (wtxt w)) \<in> utrs) (page_words pg))"

definition page_entry :: "unicode \<Rightarrow> pystr set \<Rightarrow> real option \<Rightarrow> nat \<Rightarrow> page \<Rightarrow> log_line" where
  "page_entry U utrs mx n pg =
     (case page_band U utrs mx pg of
        (xb0, xb1, mode) \<Rightarrow>
          \<lparr>pno = n, total_words = length (page_words pg),
           hits = length (page_hits U utrs mx pg),
           x0_band = xb0, x1_band = xb1, band_mode = mode\<rparr>)"

text \<open>A page without the words above its header threshold.\<close>

definition without_header :: "page \<Rightarrow> page" where
  "without_header pg =
     pg\<lparr>get_text := Some (filter (\<lambda>w. \<not> y0 w < rect_height pg * 0.18) (page_words pg))\<rparr>"

text \<open>
  The column \<open>utr_col\<close> the body of the header loop finds for the sheet \<open>sh\<close> and the
  header row \<open>hdr\<close>: \<open>None\<close> when \<open>read_excel\<close> raises or no label looks like a UTR
  header.
\<close>

definition utr_column :: "unicode \<Rightarrow> sheet \<Rightarrow> nat \<Rightarrow> column option" where
  "utr_column U sh hdr = (case sh hdr of None \<Rightarrow> None | Some df \<Rightarrow> find_utr_col U df)"

section \<open>The tokenizer of the specification\<close>

text \<open>
  The tokenizer in the words of the specification: the maximal runs of ASCII letters and
  digits of a text, those of six characters or more, each in upper case; and the
  reference tokenizer, which first replaces every non-breaking space by a space.
\<close>

fun runs_from :: "pystr \<Rightarrow> pystr \<Rightarrow> pystr list" where
  "runs_from cur [] = (if cur = [] then [] else [rev cur])"
| "runs_from cur (c # cs) =
     (if alnum c then runs_from (c # cur) cs
      else (if cur = [] then [] else [rev cur]) @ runs_from [] cs)"

definition alnum_runs :: "pystr \<Rightarrow> pystr list" where
  "alnum_runs s = runs_from [] s"

definition spec_tokens :: "pystr \<Rightarrow> pystr list" where
  "spec_tokens s = map (map ascii_upper) (filter (\<lambda>r. 6 \<le> length r) (alnum_runs s))"

definition ref_tokenize :: "pystr \<Rightarrow> pystr list" where
  "ref_tokenize s = spec_tokens (replace_nbsp s)"

section \<open>Example inputs\<close>

definition id1 :: pystr where
  "id1 = py ''Q1435783''"

definition mk_word :: "real \<Rightarrow> real \<Rightarrow> real \<Rightarrow> real \<Rightarrow> string \<Rightarrow> word" where
  "mk_word a b c d t = \<lparr>x0 = a, y0 = b, x1 = c, y1 = d, wtxt = py t\<rparr>"

definition mk_page :: "real \<Rightarrow> real \<Rightarrow> real \<Rightarrow> word list \<Rightarrow> page" where
  "mk_page l r h ws = \<lparr>rect_x0 = l, rect_x1 = r, rect_height = h, get_text = Some ws\<rparr>"

definition page_auto :: page where
  "page_auto = mk_page 0 600 1000
     [mk_word 30 150 90 160 ''Q1435783'',
      mk_word 20 200 80 210 ''HELLO'',
      mk_word 72 300 130 310 '' q1435783'',
      mk_word 40 250 100 260 ''Q1435783'']"

definition page_plain :: page where
  "page_plain = mk_page 10 100 1000
     [mk_word 30 150 90 160 ''Q1435783'',
      mk_word 20 200 80 210 ''HELLO'']"

definition page_narrow :: page where
  "page_narrow = mk_page 0 300 1000 [mk_word 250 200 290 210 ''Q1435783'']"

definition page_contain :: page where
  "page_contain = mk_page 0 600 1000
     [mk_word 50 200 120 210 ''Q1435783'',
      mk_word 180 220 210 230 ''Q1435783'',
      mk_word 60 240 185 250 ''Q1435783'']"

definition page_prefix :: page where
  "page_prefix = mk_page 0 600 1000 [mk_word 10 200 70 210 ''Q143578A'']"

definition page_header :: page where
  "page_header = mk_page 0 600 1000
     [mk_word 10 150 70 160 ''Q1435783'',
      mk_word 10 181 70 191 ''Q1435783'',
      mk_word 10 180 70 190 ''Q1435783'']"

definition pdf_hit :: pdf_file where
  "pdf_hit = \<lparr>pdf_name = py ''a.pdf'', pdf_read = Some [page_contain]\<rparr>"

definition pdf_miss :: pdf_file where
  "pdf_miss = \<lparr>pdf_name = py ''b.pdf'', pdf_read = Some [page_prefix]\<rparr>"

definition excel_ids :: excel_file where
  "excel_ids =
     \<lparr>excel_name = py ''ids.xlsx'',
      excel_sheets = Some [\<lambda>hdr. if hdr = 0
                                  then Some [(Some (py ''Date''), [Some (py ''2024-01-05'')]),
                                             (Some (py ''UTR No''), [None, Some (py ''q1435783'')])]
                                  else None]\<rparr>"

definition cell_nbsp :: pystr where
  "cell_nbsp = py '' q1435783'' @ [160] @ py ''Ref:ab12cd34,12345'' @ [160]"

definition excel_no_utr :: excel_file where
  "excel_no_utr =
     \<lparr>excel_name = py ''misc.xlsx'',
      excel_sheets = Some [\<lambda>hdr. if hdr = 0
                                  then Some [(Some (py ''Date''), [Some (py ''Q1435783'')])]
                                  else None]\<rparr>"

definition sheet_late :: sheet where
  "sheet_late = (\<lambda>hdr. if hdr = 3 then Some [(Some (py ''UTR No''), [Some (py ''ab12cd34'')])]
                       else if hdr = 4 then Some [(Some (py ''UTR No''), [Some (py ''zz99zz99'')])]
                       else Some [(Some (py ''Date''), [Some (py ''Q1435783'')])])"

definition sheet_next :: sheet where
  "sheet_next = (\<lambda>hdr. Some [(Some (py ''utr''), [Some (py ''Q1435783'')])])"

section \<open>Lemmas\<close>

subsection \<open>Closed forms of the passes over words and pages\<close>

lemma sample_left_x_find:
  "sample_left_x U utrs y ws =
     map_option x0 (find (\<lambda>w. \<not> y0 w < y \<and> upper U (strip (wtxt w)) \<in> utrs) ws)"
  by (induction ws) auto

lemma match_words_eq:
  "match_words U utrs y a b ws (k, fm, an) =
     (let ms = filter (\<lambda>w. \<not> y0 w < y \<and> (a \<le> x0 w \<and> x1 w \<le> b) \<and> upper U (strip (wtxt w)) \<in> utrs) ws
      in (k + length ms,
          (\<lambda>u. if u \<in> (\<lambda>w. upper U (strip (wtxt w))) ` set ms then Some True else fm u),
          an @ map rect_of ms))"
  by (induction ws arbitrary: k fm an) (auto simp: Let_def fun_eq_iff rect_of_def)

lemma process_page_eq:
  "process_page U utrs mx n pg fm =
     (map rect_of (page_hits U utrs mx pg),
      (\<lambda>u. if u \<in> (\<lambda>w. upper U (strip (wtxt w))) ` set (page_hits U utrs mx pg)
           then Some True else fm u),
      page_entry U utrs mx n pg)"
  by (simp add: process_page_def match_words_eq page_hits_def page_entry_def Let_def
           split: prod.splits)

lemma pages_loop_eq:
  "pages_loop U utrs mx n pgs (out, fm, logs) =
     (out @ map (\<lambda>pg. map rect_of (page_hits U utrs mx pg)) pgs,
      (\<lambda>u. if \<exists>pg \<in> set pgs. u \<in> (\<lambda>w. upper U (strip (wtxt w))) ` set (page_hits U utrs mx pg)
           then Some True else fm u),
      logs @ map (\<lambda>i. page_entry U utrs mx (n + i) (pgs ! i)) [0..<length pgs])"
proof (induction pgs arbitrary: n out fm logs)
  case Nil
  then show ?case by simp
next
  case (Cons pg pgs)
  have idx: "map (\<lambda>i. page_entry U utrs mx (n + i) ((pg # pgs) ! i)) [0..<length (pg # pgs)] =
             page_entry U utrs mx n pg #
             map (\<lambda>i. page_entry U utrs mx (Suc n + i) (pgs ! i)) [0..<length pgs]"
  proof -
    have "[0..<length (pg # pgs)] = 0 # map Suc [0..<length pgs]"
      by (simp add: upt_conv_Cons map_Suc_upt del: upt_Suc)
    then show ?thesis
      by (simp add: comp_def)
  qed
  show ?case
    using idx by (simp add: process_page_eq Cons.IH fun_eq_iff del: upt_Suc)
qed

lemma highlight_eq:
  "highlight_left_column_fast U (Some doc) utrs mx =
     Inr (map (\<lambda>pg. map rect_of (page_hits U utrs mx pg)) doc,
          (\<lambda>u. if u \<in> utrs
                then Some (\<exists>pg \<in> set doc. u \<in> (\<lambda>w. upper U (strip (wtxt w))) ` set (page_hits U utrs mx pg))
                else None),
          map (\<lambda>i. page_entry U utrs mx (Suc i) (doc ! i)) [0..<length doc])"
  by (auto simp add: highlight_left_column_fast_def pages_loop_eq fun_eq_iff page_hits_def split: prod.splits)

lemma logs_nth:
  assumes "highlight_left_column_fast U (Some doc) utrs mx = Inr (out, fm, logs)"
      and "i < length doc"
  shows "logs ! i = page_entry U utrs mx (Suc i) (doc ! i)"
  using assms by (auto simp: highlight_eq)

lemma out_nth:
  assumes "highlight_left_column_fast U (Some doc) utrs mx = Inr (out, fm, logs)"
      and "i < length doc"
  shows "out ! i = map rect_of (page_hits U utrs mx (doc ! i))"
  using assms by (auto simp: highlight_eq)

lemma page_hits_band:
  assumes "highlight_left_column_fast U (Some doc) utrs mx = Inr (out, fm, logs)"
      and "i < length doc"
  shows "page_hits U utrs mx (doc ! i) =
         filter (\<lambda>w. \<not> y0 w < rect_height (doc ! i) * 0.18 \<and>
                     x0_band (logs ! i) \<le> x0 w \<and> x1 w \<le> x1_band (logs ! i) \<and>
                     upper U (strip (wtxt w)) \<in> utrs) (page_words (doc ! i))"
proof -
  obtain a b md where pb: "page_band U utrs mx (doc ! i) = (a, b, md)"
    by (metis prod_cases3)
  then have "x0_band (logs ! i) = a \<and> x1_band (logs ! i) = b"
    using logs_nth [OF assms] by (simp add: page_entry_def)
  then show ?thesis
    using pb by (simp add: page_hits_def page_y_min_def HEADER_Y_TOP_RATIO_def)
qed

subsection \<open>Pages without the words of the header zone\<close>

lemma page_words_without_header:
  "page_words (without_header pg) =
     filter (\<lambda>w. \<not> y0 w < page_y_min pg) (page_words pg)"
  by (simp add: without_header_def page_words_def page_y_min_def HEADER_Y_TOP_RATIO_def)

lemma page_y_min_without_header: "page_y_min (without_header pg) = page_y_min pg"
  by (simp add: without_header_def page_y_min_def)

lemma sample_left_x_filter:
  "sample_left_x U utrs y (filter (\<lambda>w. \<not> y0 w < y) ws) = sample_left_x U utrs y ws"
  by (induction ws) auto

lemma page_band_without_header:
  "page_band U utrs mx (without_header pg) = page_band U utrs mx pg"
  by (simp add: page_band_def page_words_without_header page_y_min_without_header
        sample_left_x_filter) (simp add: without_header_def)

lemma page_hits_without_header:
  "page_hits U utrs mx (without_header pg) = page_hits U utrs mx pg"
proof -
  have "filter P (filter (\<lambda>w. \<not> y0 w < y) ws) = filter P ws"
    if "\<And>w. P w \<Longrightarrow> \<not> y0 w < y" for P :: "word \<Rightarrow> bool" and y ws
    using that by (induction ws) auto
  then show ?thesis
    by (simp add: page_hits_def page_band_without_header page_words_without_header
          page_y_min_without_header split: prod.splits)
qed

lemma page_entry_without_header:
  "page_entry U utrs mx n (without_header pg) =
     (page_entry U utrs mx n pg)\<lparr>total_words := length (page_words (without_header pg))\<rparr>"
  by (simp add: page_entry_def page_band_without_header page_hits_without_header
        split: prod.splits)

lemma fm_apply:
  assumes "highlight_left_column_fast U (Some doc) utrs mx = Inr (out, fm, logs)"
  shows "fm u =
           (if u \<in> utrs
            then Some (\<exists>pg \<in> set doc.
                         u \<in> (\<lambda>w. upper U (strip (wtxt w))) ` set (page_hits U utrs mx pg))
            else None)"
  using assms by (auto simp: highlight_eq)

subsection \<open>The example inputs evaluated\<close>

lemma norm_id1: "upper ascii_only (strip (py ''Q1435783'')) = id1"
  by (simp add: id1_def py_def upper_def strip_def isspace_def ascii_upper_def)

lemma norm_prefix: "upper ascii_only (strip (py ''Q143578A'')) \<noteq> id1"
  by (simp add: id1_def py_def upper_def strip_def isspace_def ascii_upper_def)

lemma hits_contain: "map wtxt (page_hits ascii_only {id1} None page_contain) = [py ''Q1435783'', py ''Q1435783'']"
  by (simp add: page_hits_def page_band_def compute_band_def page_contain_def mk_page_def
        mk_word_def page_words_def page_y_min_def HEADER_Y_TOP_RATIO_def
        DEFAULT_LEFT_BAND_WIDTH_def norm_id1)

lemma hits_prefix: "page_hits ascii_only {id1} None page_prefix = []"
  by (simp add: page_hits_def page_band_def compute_band_def page_prefix_def mk_page_def
        mk_word_def page_words_def page_y_min_def HEADER_Y_TOP_RATIO_def
        DEFAULT_LEFT_BAND_WIDTH_def norm_prefix)

lemma found_hit:
  "highlight_left_column_fast ascii_only (Some [page_contain]) {id1} None = Inr (out, fm, logs)
   \<Longrightarrow> fm id1 = Some True"
proof -
  assume r: "highlight_left_column_fast ascii_only (Some [page_contain]) {id1} None = Inr (out, fm, logs)"
  have "set (map wtxt (page_hits ascii_only {id1} None page_contain)) = {py ''Q1435783''}"
    by (simp only: hits_contain) simp
  then have "(\<lambda>w. upper ascii_only (strip (wtxt w))) ` set (page_hits ascii_only {id1} None page_contain) = {id1}"
    by (simp add: image_image [symmetric, of "\<lambda>t. upper ascii_only (strip t)" wtxt] norm_id1 del: image_image)
  then show ?thesis
    by (simp add: fm_apply [OF r])
qed

lemma found_miss:
  "highlight_left_column_fast ascii_only (Some [page_prefix]) {id1} None = Inr (out, fm, logs)
   \<Longrightarrow> fm id1 = Some False"
  by (simp add: fm_apply hits_prefix)

lemma upt_0_5: "[0..<5] = [0, 1, 2, 3, 4::nat]"
  by (simp add: upt_rec)

lemma header_utr_no: "looks_like_utr_header ascii_only (Some (py ''UTR No''))"
  by (simp add: looks_like_utr_header_def normalize_header_def replace_nbsp_def split_def
        py_def strip_def isspace_def lower_def ascii_lower_def ascii_only_def Let_def upt_rec)

lemma header_date: "\<not> looks_like_utr_header ascii_only (Some (py ''Date''))"
  by (simp add: looks_like_utr_header_def normalize_header_def replace_nbsp_def split_def
        py_def strip_def isspace_def lower_def ascii_lower_def ascii_only_def Let_def upt_rec)

lemma tokens_ids: "add_tokens ascii_only [None, Some (py ''q1435783'')] {} = {id1}"
  by (simp add: add_tokens_def extract_utrs_from_cell_def py_def strip_def isspace_def
        alnum_def upper_def ascii_upper_def id1_def)

lemma load_ids: "load_utrs_from_excel ascii_only [excel_ids] = Inr {id1}"
  by (simp add: load_utrs_from_excel_def excel_ids_def upt_0_5 header_utr_no header_date
        tokens_ids)

lemma image_hit:
  "(\<lambda>w. upper ascii_only (strip (wtxt w))) ` set (page_hits ascii_only {id1} None page_contain) = {id1}"
proof -
  have "set (map wtxt (page_hits ascii_only {id1} None page_contain)) = {py ''Q1435783''}"
    by (simp only: hits_contain) simp
  then show ?thesis
    by (simp add: image_image [symmetric, of "\<lambda>t. upper ascii_only (strip t)" wtxt] norm_id1 del: image_image)
qed

subsection \<open>The report of one document\<close>

text \<open>
  With one document the rows of the report are the identifiers in sorted order, each
  once.
\<close>

lemma drop_seen_distinct:
  "distinct rows \<Longrightarrow> set rows \<inter> set seen = {} \<Longrightarrow> drop_seen seen rows = rows"
  by (induction rows arbitrary: seen) auto

lemma report_one_document:
  assumes "load_utrs_from_excel U excel_files = Inr utrs"
      and "start U excel_files [f] manual_band manual_x1 = Inr r"
  shows "map fst (report r) = sorted_list_of_set utrs"
proof -
  let ?mx = "if manual_band then Some (real_of_int manual_x1) else None"
  obtain st where st: "pdf_loop U utrs ?mx [f] init_state = Inr st"
    and r: "r = \<lparr>highlighted = zip_pdfs st, report = drop_duplicates (csv_rows st),
                 debug_log = take 150 (all_logs st)\<rparr>"
    using assms by (auto simp: start_def split: if_splits sum.splits)
  have "\<exists>fm. csv_rows st = map (\<lambda>u. (u, get_found fm u)) (sorted_list_of_set utrs)"
    using st by (auto simp: init_state_def split: sum.splits)
  then obtain fm where
    "csv_rows st = map (\<lambda>u. (u, get_found fm u)) (sorted_list_of_set utrs)" ..
  moreover have "distinct (map (\<lambda>u. (u, get_found fm u)) (sorted_list_of_set utrs))"
    by (simp add: distinct_map inj_on_def)
  ultimately have "drop_duplicates (csv_rows st) =
                   map (\<lambda>u. (u, get_found fm u)) (sorted_list_of_set utrs)"
    by (simp add: drop_duplicates_def drop_seen_distinct)
  then show ?thesis
    by (simp add: r comp_def)
qed

subsection \<open>The tokenizer\<close>

lemma isspace_not_alnum: "isspace c \<Longrightarrow> \<not> alnum c"
  by (auto simp: isspace_def alnum_def)

lemma runs_from_eq:
  "runs_from cur s =
     (if rev cur @ takeWhile alnum s = [] then [] else [rev cur @ takeWhile alnum s]) @
     runs_from [] (dropWhile alnum s)"
  by (induction s arbitrary: cur) auto

lemma runs_from_no_alnum: "\<forall>c \<in> set t. \<not> alnum c \<Longrightarrow> runs_from [] t = []"
  by (induction t) auto

lemma runs_from_trailing:
  "\<forall>c \<in> set t. \<not> alnum c \<Longrightarrow> runs_from cur (s @ t) = runs_from cur s"
proof (induction s arbitrary: cur)
  case Nil
  then show ?case
    by (cases t) (auto simp: runs_from_no_alnum)
next
  case (Cons c s)
  then show ?case by simp
qed

lemma runs_from_leading: "runs_from [] (dropWhile isspace s) = runs_from [] s"
  by (induction s) (auto simp: isspace_not_alnum)

lemma alnum_runs_strip: "alnum_runs (strip s) = alnum_runs s"
proof -
  let ?u = "dropWhile isspace s"
  have "?u = rev (dropWhile isspace (rev ?u)) @ rev (takeWhile isspace (rev ?u))"
    by (metis rev_append rev_rev_ident takeWhile_dropWhile_id)
  moreover have "\<forall>c \<in> set (rev (takeWhile isspace (rev ?u))). \<not> alnum c"
    by (auto dest: set_takeWhileD simp: isspace_not_alnum)
  ultimately have "runs_from [] ?u = runs_from [] (rev (dropWhile isspace (rev ?u)))"
    by (metis runs_from_trailing)
  then show ?thesis
    by (simp add: alnum_runs_def strip_def runs_from_leading)
qed

lemma alnum_runs_replace_nbsp: "runs_from cur (replace_nbsp s) = runs_from cur s"
  by (induction s arbitrary: cur) (auto simp: replace_nbsp_def alnum_def)

lemma findall_runs: "findall s = filter (\<lambda>r. 6 \<le> length r) (alnum_runs s)"
proof (induction s rule: findall.induct)
  case 1
  then show ?case by (simp add: alnum_runs_def)
next
  case (2 c cs)
  show ?case
  proof (cases "6 \<le> length (takeWhile alnum (c # cs))")
    case True
    define tw where "tw = takeWhile alnum (c # cs)"
    define dw where "dw = dropWhile alnum (c # cs)"
    have long: "6 \<le> length tw"
      using True by (simp add: tw_def)
    have "findall (c # cs) = tw # findall dw"
      using True by (simp add: tw_def dw_def)
    also have "findall dw = filter (\<lambda>r. 6 \<le> length r) (alnum_runs dw)"
      using 2(1) [OF True] by (simp add: dw_def)
    finally have f: "findall (c # cs) = tw # filter (\<lambda>r. 6 \<le> length r) (alnum_runs dw)" .
    have "runs_from [] (c # cs) = (if tw = [] then [] else [tw]) @ runs_from [] dw"
      unfolding tw_def dw_def using runs_from_eq [of "[]" "c # cs"]
      by (simp only: rev.simps append_Nil)
    then have "filter (\<lambda>r. 6 \<le> length r) (runs_from [] (c # cs)) =
               tw # filter (\<lambda>r. 6 \<le> length r) (runs_from [] dw)"
      using long by (auto simp del: runs_from.simps)
    then show ?thesis
      using f by (simp add: alnum_runs_def del: runs_from.simps)
  next
    case False
    then have f: "findall (c # cs) = filter (\<lambda>r. 6 \<le> length r) (alnum_runs cs)"
      using 2 by simp
    show ?thesis
    proof (cases "alnum c")
      case True
      then have short: "length (takeWhile alnum cs) < 5"
        using False by simp
      have "runs_from [] (c # cs) = runs_from [c] cs"
        using True by simp
      also have "\<dots> = [c # takeWhile alnum cs] @ runs_from [] (dropWhile alnum cs)"
        by (simp add: runs_from_eq [of "[c]" cs])
      finally have "filter (\<lambda>r. 6 \<le> length r) (runs_from [] (c # cs)) =
                    filter (\<lambda>r. 6 \<le> length r) (runs_from [] (dropWhile alnum cs))"
        using short by simp
      moreover have "filter (\<lambda>r. 6 \<le> length r) (runs_from [] cs) =
                    filter (\<lambda>r. 6 \<le> length r) (runs_from [] (dropWhile alnum cs))"
        using short by (simp add: runs_from_eq [of "[]" cs])
      ultimately show ?thesis
        using f by (simp add: alnum_runs_def)
    next
      case False
      then show ?thesis
        using f by (simp add: alnum_runs_def)
    qed
  qed
qed

lemma findall_alnum: "t \<in> set (findall s) \<Longrightarrow> \<forall>c \<in> set t. alnum c"
proof (induction s rule: findall.induct)
  case 1
  then show ?case by simp
next
  case (2 c cs)
  define tw where "tw = takeWhile alnum (c # cs)"
  define dw where "dw = dropWhile alnum (c # cs)"
  show ?case
  proof (cases "6 \<le> length tw")
    case True
    then have "findall (c # cs) = tw # findall dw"
      by (simp add: tw_def dw_def)
    then have "t = tw \<or> t \<in> set (findall dw)"
      using 2(3) by (simp only: set_simps insert_iff)
    moreover have "\<forall>c \<in> set tw. alnum c"
      unfolding tw_def by (blast dest: set_takeWhileD)
    moreover have "t \<in> set (findall dw) \<Longrightarrow> \<forall>c \<in> set t. alnum c"
      using 2(1) True unfolding tw_def dw_def by blast
    ultimately show ?thesis by blast
  next
    case False
    then have "findall (c # cs) = findall cs"
      by (simp add: tw_def)
    then have "t \<in> set (findall cs)"
      using 2(3) by (simp only:)
    then show ?thesis
      using 2(2) False unfolding tw_def by blast
  qed
qed

lemma strip_alnum: "\<forall>c \<in> set t. alnum c \<Longrightarrow> strip t = t"
proof -
  assume a: "\<forall>c \<in> set t. alnum c"
  then have "\<forall>c \<in> set t. \<not> isspace c"
    using isspace_not_alnum by blast
  then have "t = [] \<or> \<not> isspace (hd t)" "t = [] \<or> \<not> isspace (last t)"
    by (cases t, simp, simp)+
  then have "dropWhile isspace t = t" "dropWhile isspace (rev t) = rev t"
    by (simp_all add: dropWhile_eq_self_iff hd_rev)
  then show ?thesis
    by (simp add: strip_def)
qed

lemma upper_alnum: "\<forall>c \<in> set t. alnum c \<Longrightarrow> upper U t = map ascii_upper t"
  by (induction t) (auto simp: upper_def alnum_def)

lemma cell_tokens_eq:
  "cell_tokens U (Some s) = map (map ascii_upper) (filter (\<lambda>r. 6 \<le> length r) (alnum_runs s))"
proof -
  have "upper U (strip t) = map ascii_upper t" if "t \<in> set (findall (strip s))" for t
    using findall_alnum [OF that] by (simp add: strip_alnum upper_alnum)
  then have "cell_tokens U (Some s) = map (map ascii_upper) (findall (strip s))"
    by (simp add: cell_tokens_def extract_utrs_from_cell_def)
  then show ?thesis
    by (simp add: findall_runs alnum_runs_strip)
qed

lemma add_tokens_eq:
  "add_tokens U cells utrs = utrs \<union> (\<Union>val \<in> set cells. set (cell_tokens U val))"
proof -
  have inner: "fold (\<lambda>token utrs. insert (f token) utrs) ts A = A \<union> f ` set ts"
    for f :: "pystr \<Rightarrow> pystr" and ts A
    by (induction ts arbitrary: A) auto
  have outer: "fold (\<lambda>val utrs. fold (\<lambda>token utrs. insert (upper U (strip token)) utrs)
                          (extract_utrs_from_cell val) utrs) vs A =
               A \<union> (\<Union>val \<in> set vs. set (cell_tokens U val))" for vs A
    by (induction vs arbitrary: A) (auto simp: inner cell_tokens_def)
  have "(\<Union>val \<in> set (filter (\<lambda>val. val \<noteq> None) cells). set (cell_tokens U val)) =
        (\<Union>val \<in> set cells. set (cell_tokens U val))"
    by (auto simp: cell_tokens_def extract_utrs_from_cell_def)
  then show ?thesis
    by (simp add: add_tokens_def outer)
qed

subsection \<open>The scan of a workbook\<close>

lemma find_app:
  "find P (xs @ ys) = (case find P xs of None \<Rightarrow> find P ys | Some x \<Rightarrow> Some x)"
  by (induction xs) auto

lemma find_Pair:
  "find (\<lambda>(a, b). Q a b) (map (Pair a) bs) = map_option (Pair a) (find (Q a) bs)"
  by (induction bs) auto

lemma scan_headers_find:
  "scan_headers U sh hdrs utrs =
     (case find (\<lambda>hdr. utr_column U sh hdr \<noteq> None) hdrs of
        None \<Rightarrow> None
      | Some hdr \<Rightarrow> map_option (\<lambda>c. add_tokens U (snd c) utrs) (utr_column U sh hdr))"
  by (induction hdrs) (auto simp: utr_column_def split: option.splits)

lemma scan_sheets_find:
  "scan_sheets U shs utrs =
     (case find (\<lambda>(sh, hdr). utr_column U sh hdr \<noteq> None) (List.product shs [0..<5]) of
        None \<Rightarrow> None
      | Some (sh, hdr) \<Rightarrow> map_option (\<lambda>c. add_tokens U (snd c) utrs) (utr_column U sh hdr))"
proof (induction shs)
  case Nil
  then show ?case by simp
next
  case (Cons sh shs)
  show ?case
  proof (cases "find (\<lambda>hdr. utr_column U sh hdr \<noteq> None) [0..<5]")
    case None
    then show ?thesis
      using Cons by (simp add: scan_headers_find find_app find_Pair del: upt_Suc)
  next
    case (Some hdr)
    then have "utr_column U sh hdr \<noteq> None"
      by (auto simp: find_Some_iff)
    then show ?thesis
      using Some by (auto simp: scan_headers_find find_app find_Pair simp del: upt_Suc)
  qed
qed

lemma scan_headers_none:
  "\<forall>hdr \<in> set hdrs. utr_column U sh hdr = None \<Longrightarrow> scan_headers U sh hdrs utrs = None"
  by (induction hdrs) (auto simp: utr_column_def split: option.splits)

lemma scan_sheets_none:
  "\<forall>sh \<in> set shs. \<forall>hdr < 5. utr_column U sh hdr = None \<Longrightarrow> scan_sheets U shs utrs = None"
  by (induction shs) (simp_all add: scan_headers_none del: upt_Suc)

lemma load_files_app:
  "load_files U (pre @ fs) utrs =
     (case load_files U pre utrs of Inl e \<Rightarrow> Inl e | Inr utrs' \<Rightarrow> load_files U fs utrs')"
  by (induction pre arbitrary: utrs) (auto split: option.splits)

lemma load_files_abort:
  assumes "f \<in> set fs" and "excel_sheets f = Some shs"
      and "\<forall>sh \<in> set shs. \<forall>hdr < 5. utr_column U sh hdr = None"
  shows "\<exists>e. load_files U fs utrs = Inl e"
proof -
  obtain pre post where "fs = pre @ f # post"
    using assms(1) by (meson split_list)
  then show ?thesis
    using assms(2,3) by (auto simp: load_files_app scan_sheets_none split: sum.splits)
qed

section \<open>Claims\<close>

text \<open>
  C1. Two documents, the identifier \<open>Q1435783\<close> in the band of the first and not in the
  second: the report has two rows for it, one with \<open>found\<close> true and one with false.
\<close>

theorem C1_report_two_rows:
  "map_sum id report (start ascii_only [excel_ids] [pdf_hit, pdf_miss] False 220) =
     Inr [(id1, True), (id1, False)]"
  by (simp add: start_def load_ids pdf_hit_def pdf_miss_def highlight_eq init_state_def
        get_found_def image_hit hits_prefix drop_duplicates_def)

text \<open>
  C2, as stated, fails across documents: the flag of \<open>Q1435783\<close> is true after the
  first file and false after the second, and the two orders of the files end with
  different flags.
\<close>

theorem C2_found_map_reverts:
  "found_after ascii_only {id1} None [pdf_hit] id1 = Some True \<and>
   found_after ascii_only {id1} None [pdf_hit, pdf_miss] id1 = Some False \<and>
   found_after ascii_only {id1} None [pdf_miss, pdf_hit] id1 = Some True"
  by (simp add: found_after_def pdf_hit_def pdf_miss_def highlight_eq init_state_def
        get_found_def image_hit hits_prefix)

text \<open>
  C2, amended. Within one document the found-map is a monotonic OR-accumulator over
  the pages: a flag that is true in a state of the page loop is true after any further
  pages; the found-map of the pages of two lists in sequence is the pointwise OR of the
  found-maps of the two lists; and a document with the same pages in another order has
  the same found-map.
\<close>

theorem C2_found_map_within_document:
  "(pages_loop U utrs mx n pgs (out, fm, logs) = (out', fm', logs') \<longrightarrow>
      fm u = Some True \<longrightarrow> fm' u = Some True) \<and>
   (highlight_left_column_fast U (Some d1) utrs mx = Inr (o1, f1, l1) \<longrightarrow>
    highlight_left_column_fast U (Some d2) utrs mx = Inr (o2, f2, l2) \<longrightarrow>
    highlight_left_column_fast U (Some (d1 @ d2)) utrs mx = Inr (o3, f3, l3) \<longrightarrow>
      f3 u = (case (f1 u, f2 u) of (Some a, Some b) \<Rightarrow> Some (a \<or> b) | _ \<Rightarrow> None)) \<and>
   (mset d2 = mset d1 \<longrightarrow>
    highlight_left_column_fast U (Some d1) utrs mx = Inr (o1, f1, l1) \<longrightarrow>
    highlight_left_column_fast U (Some d2) utrs mx = Inr (o2, f2, l2) \<longrightarrow>
      f2 = f1)"
proof (intro conjI impI)
  assume "pages_loop U utrs mx n pgs (out, fm, logs) = (out', fm', logs')"
     and "fm u = Some True"
  then show "fm' u = Some True"
    by (auto simp: pages_loop_eq)
next
  assume "highlight_left_column_fast U (Some d1) utrs mx = Inr (o1, f1, l1)"
     and "highlight_left_column_fast U (Some d2) utrs mx = Inr (o2, f2, l2)"
     and "highlight_left_column_fast U (Some (d1 @ d2)) utrs mx = Inr (o3, f3, l3)"
  then show "f3 u = (case (f1 u, f2 u) of (Some a, Some b) \<Rightarrow> Some (a \<or> b) | _ \<Rightarrow> None)"
    by (simp add: fm_apply bex_Un)
next
  assume m: "mset d2 = mset d1"
     and r1: "highlight_left_column_fast U (Some d1) utrs mx = Inr (o1, f1, l1)"
     and r2: "highlight_left_column_fast U (Some d2) utrs mx = Inr (o2, f2, l2)"
  have "set d2 = set d1"
    using m by (rule mset_eq_setD)
  then show "f2 = f1"
    by (simp add: fun_eq_iff fm_apply [OF r1] fm_apply [OF r2])
qed

text \<open>
  A document of two pages and the same pages in the other order; a page loop that starts
  with the flag true and meets no match.
\<close>

theorem C2_found_map_within_document_witness:
  "\<exists>o1 f1 l1 o2 f2 l2 out' fm' logs'.
     highlight_left_column_fast ascii_only (Some [page_contain, page_prefix]) {id1} None =
       Inr (o1, f1, l1) \<and>
     highlight_left_column_fast ascii_only (Some [page_prefix, page_contain]) {id1} None =
       Inr (o2, f2, l2) \<and>
     mset [page_prefix, page_contain] = mset [page_contain, page_prefix] \<and>
     f2 = f1 \<and>
     pages_loop ascii_only {id1} None 2 [page_prefix] ([], [id1 \<mapsto> True], []) =
       (out', fm', logs') \<and>
     fm' id1 = Some True"
proof -
  obtain o1 f1 l1 where
    r1: "highlight_left_column_fast ascii_only (Some [page_contain, page_prefix]) {id1} None =
           Inr (o1, f1, l1)"
    by (metis highlight_left_column_fast_def option.simps(5) prod_cases3)
  obtain o2 f2 l2 where
    r2: "highlight_left_column_fast ascii_only (Some [page_prefix, page_contain]) {id1} None =
           Inr (o2, f2, l2)"
    by (metis highlight_left_column_fast_def option.simps(5) prod_cases3)
  obtain out' fm' logs' where
    r3: "pages_loop ascii_only {id1} None 2 [page_prefix] ([], [id1 \<mapsto> True], []) =
           (out', fm', logs')"
    by (metis prod_cases3)
  have m: "mset [page_prefix, page_contain] = mset [page_contain, page_prefix]"
    by (simp add: add.commute)
  have t: "[id1 \<mapsto> True] id1 = Some True"
    by simp
  note c = C2_found_map_within_document
    [of ascii_only "{id1}" None 2 "[page_prefix]" "[]" "[id1 \<mapsto> True]" "[]" out' fm' logs' id1
        "[page_contain, page_prefix]" o1 f1 l1 "[page_prefix, page_contain]" o2 f2 l2]
  have "fm' id1 = Some True"
    using c [THEN conjunct1] r3 t by blast
  moreover have "f2 = f1"
    using c [THEN conjunct2, THEN conjunct2] m r1 r2 by blast
  ultimately show ?thesis
    using r1 r2 r3 m by blast
qed

text \<open>
  C3. On a page with no manual boundary where some word below the header threshold has
  its stripped, upper-cased text in the identifier set, the band of the log line starts
  at the left coordinate of the first such word in the order of the word list, ends at
  the minimum of the page's right edge and that coordinate plus 140, and the mode is
  \<open>auto\<close>.
\<close>

theorem C3_auto_band:
  assumes "highlight_left_column_fast U (Some doc) utrs None = Inr (out, fm, logs)"
      and "i < length doc"
      and "find (\<lambda>w. \<not> y0 w < rect_height (doc ! i) * 0.18 \<and> upper U (strip (wtxt w)) \<in> utrs)
             (page_words (doc ! i)) = Some w"
  shows "x0_band (logs ! i) = x0 w \<and>
         x1_band (logs ! i) = min (rect_x1 (doc ! i)) (x0 w + 140) \<and>
         band_mode (logs ! i) = Auto"
proof -
  have "sample_left_x U utrs (page_y_min (doc ! i)) (page_words (doc ! i)) = Some (x0 w)"
    using assms(3) by (simp add: sample_left_x_find page_y_min_def HEADER_Y_TOP_RATIO_def)
  then have "page_band U utrs None (doc ! i) =
               (x0 w, min (rect_x1 (doc ! i)) (x0 w + 140), Auto)"
    by (simp add: page_band_def compute_band_def DEFAULT_LEFT_BAND_WIDTH_def)
  then show ?thesis
    using logs_nth [OF assms(1,2)] by (simp add: page_entry_def)
qed

text \<open>
  On \<open>page_auto\<close> the first match in word order is at \<open>x0 = 72\<close>, although a later
  match lies further left and higher, and a match in the header zone comes first.
\<close>

theorem C3_auto_band_witness:
  "\<exists>out fm logs.
     highlight_left_column_fast ascii_only (Some [page_auto]) {id1} None = Inr (out, fm, logs) \<and>
     x0_band (logs ! 0) = 72 \<and> x1_band (logs ! 0) = 212 \<and> band_mode (logs ! 0) = Auto"
proof -
  obtain out fm logs where
    r: "highlight_left_column_fast ascii_only (Some [page_auto]) {id1} None = Inr (out, fm, logs)"
    by (metis highlight_left_column_fast_def option.simps(5) prod_cases3)
  have f: "find (\<lambda>w. \<not> y0 w < rect_height ([page_auto] ! 0) * 0.18 \<and>
                     upper ascii_only (strip (wtxt w)) \<in> {id1})
             (page_words ([page_auto] ! 0)) = Some (mk_word 72 300 130 310 '' q1435783'')"
    by (simp add: page_auto_def mk_page_def mk_word_def page_words_def id1_def py_def
          upper_def strip_def isspace_def ascii_upper_def)
  show ?thesis
    using C3_auto_band [OF r _ f] r by (simp add: mk_word_def page_auto_def mk_page_def)
qed

text \<open>
  C4. On a page with no manual boundary where no word below the header threshold has its
  stripped, upper-cased text in the identifier set, the band is
  \<open>[page_left, min (page_left + 140) page_right]\<close> and the mode is \<open>fallback\<close>.
\<close>

theorem C4_fallback_band:
  assumes "highlight_left_column_fast U (Some doc) utrs None = Inr (out, fm, logs)"
      and "i < length doc"
      and "\<forall>w \<in> set (page_words (doc ! i)).
             \<not> y0 w < rect_height (doc ! i) * 0.18 \<longrightarrow> upper U (strip (wtxt w)) \<notin> utrs"
  shows "x0_band (logs ! i) = rect_x0 (doc ! i) \<and>
         x1_band (logs ! i) = min (rect_x0 (doc ! i) + 140) (rect_x1 (doc ! i)) \<and>
         band_mode (logs ! i) = Fallback"
proof -
  have "find (\<lambda>w. \<not> y0 w < page_y_min (doc ! i) \<and> upper U (strip (wtxt w)) \<in> utrs)
          (page_words (doc ! i)) = None"
    using assms(3) by (auto simp: find_None_iff page_y_min_def HEADER_Y_TOP_RATIO_def)
  then have "sample_left_x U utrs (page_y_min (doc ! i)) (page_words (doc ! i)) = None"
    by (simp add: sample_left_x_find)
  then have "page_band U utrs None (doc ! i) =
               (rect_x0 (doc ! i), min (rect_x0 (doc ! i) + 140) (rect_x1 (doc ! i)), Fallback)"
    by (simp add: page_band_def compute_band_def DEFAULT_LEFT_BAND_WIDTH_def)
  then show ?thesis
    using logs_nth [OF assms(1,2)] by (simp add: page_entry_def)
qed

text \<open>
  On \<open>page_plain\<close> the only word with an identifier's text lies in the header zone; the
  page is 90 wide, so the band is clipped to its right edge.
\<close>

theorem C4_fallback_band_witness:
  "\<exists>out fm logs.
     highlight_left_column_fast ascii_only (Some [page_plain]) {id1} None = Inr (out, fm, logs) \<and>
     x0_band (logs ! 0) = 10 \<and> x1_band (logs ! 0) = 100 \<and> band_mode (logs ! 0) = Fallback"
proof -
  obtain out fm logs where
    r: "highlight_left_column_fast ascii_only (Some [page_plain]) {id1} None = Inr (out, fm, logs)"
    by (metis highlight_left_column_fast_def option.simps(5) prod_cases3)
  have f: "\<forall>w \<in> set (page_words ([page_plain] ! 0)).
             \<not> y0 w < rect_height ([page_plain] ! 0) * 0.18 \<longrightarrow>
             upper ascii_only (strip (wtxt w)) \<notin> {id1}"
    by (simp add: page_plain_def mk_page_def mk_word_def page_words_def id1_def py_def
          upper_def strip_def isspace_def ascii_upper_def)
  show ?thesis
    using C4_fallback_band [OF r _ f] r by (simp add: page_plain_def mk_page_def)
qed

text \<open>
  C5. The words above \<open>page_height * 0.18\<close> are ignored: without them the document
  gets the same highlights, the same found-map and the same log but for the count of the
  words; no highlight covers a word above the threshold; and every word of a page at or
  below the threshold, inside the band and with its text in the set, is highlighted and
  marks its identifier.
\<close>

theorem C5_header_exclusion:
  assumes "highlight_left_column_fast U (Some doc) utrs mx = Inr (out, fm, logs)"
      and "i < length doc"
  shows "highlight_left_column_fast U (Some (map without_header doc)) utrs mx =
           Inr (out, fm,
                map (\<lambda>k. (logs ! k)\<lparr>total_words :=
                             length (page_words (without_header (doc ! k)))\<rparr>)
                  [0..<length doc]) \<and>
         (\<forall>w. y0 w < rect_height (doc ! i) * 0.18 \<longrightarrow> rect_of w \<notin> set (out ! i)) \<and>
         (\<forall>w \<in> set (page_words (doc ! i)).
            rect_height (doc ! i) * 0.18 \<le> y0 w \<and>
            x0_band (logs ! i) \<le> x0 w \<and> x1 w \<le> x1_band (logs ! i) \<and>
            upper U (strip (wtxt w)) \<in> utrs \<longrightarrow>
            rect_of w \<in> set (out ! i) \<and> fm (upper U (strip (wtxt w))) = Some True)"
proof (intro conjI)
  have "map (\<lambda>k. page_entry U utrs mx (Suc k) (map without_header doc ! k)) [0..<length doc] =
        map (\<lambda>k. (logs ! k)\<lparr>total_words := length (page_words (without_header (doc ! k)))\<rparr>)
          [0..<length doc]"
    using logs_nth [OF assms(1)] by (simp add: page_entry_without_header)
  moreover have "out = map (\<lambda>pg. map rect_of (page_hits U utrs mx pg)) doc"
    using assms(1) by (auto simp: highlight_eq)
  moreover have "fm = (\<lambda>u. if u \<in> utrs
                then Some (\<exists>pg \<in> set doc. u \<in> (\<lambda>w. upper U (strip (wtxt w))) ` set (page_hits U utrs mx pg))
                else None)"
    using assms(1) by (auto simp: highlight_eq)
  ultimately show "highlight_left_column_fast U (Some (map without_header doc)) utrs mx =
           Inr (out, fm,
                map (\<lambda>k. (logs ! k)\<lparr>total_words :=
                             length (page_words (without_header (doc ! k)))\<rparr>)
                  [0..<length doc])"
    by (auto simp: highlight_eq page_hits_without_header comp_def fun_eq_iff)
next
  show "\<forall>w. y0 w < rect_height (doc ! i) * 0.18 \<longrightarrow> rect_of w \<notin> set (out ! i)"
    by (auto simp: out_nth [OF assms] page_hits_band [OF assms] rect_of_def)
next
  have "fm (upper U (strip (wtxt w))) = Some True"
    if "w \<in> set (page_hits U utrs mx (doc ! i))" for w
  proof -
    have "upper U (strip (wtxt w)) \<in> utrs"
      using that by (simp add: page_hits_band [OF assms])
    moreover have "doc ! i \<in> set doc"
      using assms(2) by simp
    ultimately have "\<exists>pg \<in> set doc.
        upper U (strip (wtxt w)) \<in> (\<lambda>w. upper U (strip (wtxt w))) ` set (page_hits U utrs mx pg)"
      "upper U (strip (wtxt w)) \<in> utrs"
      using that by blast+
    then show ?thesis
      by (simp only: fm_apply [OF assms(1)] if_True)
  qed
  then show "\<forall>w \<in> set (page_words (doc ! i)).
            rect_height (doc ! i) * 0.18 \<le> y0 w \<and>
            x0_band (logs ! i) \<le> x0 w \<and> x1 w \<le> x1_band (logs ! i) \<and>
            upper U (strip (wtxt w)) \<in> utrs \<longrightarrow>
            rect_of w \<in> set (out ! i) \<and> fm (upper U (strip (wtxt w))) = Some True"
    by (auto simp: out_nth [OF assms] page_hits_band [OF assms])
qed

text \<open>
  The page is 1000 high, so the threshold is 180: the matching word at \<open>top = 150\<close> is
  not highlighted, those at \<open>top = 181\<close> and at \<open>top = 180\<close> are.
\<close>

theorem C5_header_exclusion_witness:
  "\<exists>out fm logs.
     highlight_left_column_fast ascii_only (Some [page_header]) {id1} None = Inr (out, fm, logs) \<and>
     (10, 150, 70, 160) \<notin> set (out ! 0) \<and>
     (10, 181, 70, 191) \<in> set (out ! 0) \<and>
     (10, 180, 70, 190) \<in> set (out ! 0) \<and>
     fm id1 = Some True \<and> hits (logs ! 0) = 2"
proof -
  obtain out fm logs where
    r: "highlight_left_column_fast ascii_only (Some [page_header]) {id1} None = Inr (out, fm, logs)"
    by (metis highlight_left_column_fast_def option.simps(5) prod_cases3)
  have n: "upper ascii_only (strip (py ''Q1435783'')) = id1"
    by (simp add: id1_def py_def upper_def strip_def isspace_def ascii_upper_def)
  have b: "x0_band (logs ! 0) = 10 \<and> x1_band (logs ! 0) = 150 \<and> hits (logs ! 0) = 2"
    using logs_nth [OF r, of 0]
    by (simp add: page_entry_def page_band_def compute_band_def page_header_def mk_page_def
          mk_word_def page_words_def page_y_min_def HEADER_Y_TOP_RATIO_def page_hits_def
          DEFAULT_LEFT_BAND_WIDTH_def n)
  note c = C5_header_exclusion [OF r, of 0, THEN conjunct2]
  have "rect_of (mk_word 10 150 70 160 ''Q1435783'') \<notin> set (out ! 0)"
    using c [THEN conjunct1, THEN spec, of "mk_word 10 150 70 160 ''Q1435783''"]
    by (simp add: page_header_def mk_page_def mk_word_def)
  then show ?thesis
    using c [THEN conjunct2] r b
    by (simp add: page_header_def mk_page_def mk_word_def page_words_def n rect_of_def)
qed

text \<open>
  C6. The highlights of a page are the rectangles of exactly the words that are not above
  the header threshold, lie with both edges inside the band of the page and have their
  stripped, upper-cased text in the identifier set, in word order; the log counts them.
\<close>

theorem C6_full_containment:
  assumes "highlight_left_column_fast U (Some doc) utrs mx = Inr (out, fm, logs)"
      and "i < length doc"
  shows "out ! i =
           map rect_of
             (filter (\<lambda>w. \<not> y0 w < rect_height (doc ! i) * 0.18 \<and>
                          x0_band (logs ! i) \<le> x0 w \<and> x1 w \<le> x1_band (logs ! i) \<and>
                          upper U (strip (wtxt w)) \<in> utrs)
                (page_words (doc ! i))) \<and>
         hits (logs ! i) = length (out ! i)"
proof -
  have "hits (logs ! i) = length (page_hits U utrs mx (doc ! i))"
    using logs_nth [OF assms] by (simp add: page_entry_def split: prod.splits)
  then show ?thesis
    using out_nth [OF assms] page_hits_band [OF assms] by simp
qed

text \<open>
  On \<open>page_contain\<close> the band is \<open>[50, 190]\<close>: the word spanning \<open>[180, 210]\<close> is not
  highlighted, the word spanning \<open>[60, 185]\<close> is.
\<close>

theorem C6_full_containment_witness:
  "\<exists>out fm logs.
     highlight_left_column_fast ascii_only (Some [page_contain]) {id1} None = Inr (out, fm, logs) \<and>
     x0_band (logs ! 0) = 50 \<and> x1_band (logs ! 0) = 190 \<and>
     out ! 0 = [(50, 200, 120, 210), (60, 240, 185, 250)] \<and> hits (logs ! 0) = 2"
proof -
  obtain out fm logs where
    r: "highlight_left_column_fast ascii_only (Some [page_contain]) {id1} None = Inr (out, fm, logs)"
    by (metis highlight_left_column_fast_def option.simps(5) prod_cases3)
  have n: "upper ascii_only (strip (py ''Q1435783'')) = id1"
    by (simp add: id1_def py_def upper_def strip_def isspace_def ascii_upper_def)
  have b: "x0_band (logs ! 0) = 50 \<and> x1_band (logs ! 0) = 190"
    using logs_nth [OF r, of 0]
    by (simp add: page_entry_def page_band_def compute_band_def page_contain_def mk_page_def
          mk_word_def page_words_def page_y_min_def HEADER_Y_TOP_RATIO_def
          DEFAULT_LEFT_BAND_WIDTH_def n)
  show ?thesis
    using C6_full_containment [OF r, of 0] r b
    by (simp add: page_contain_def mk_page_def mk_word_def page_words_def n rect_of_def)
qed

text \<open>
  C7. After a document the flag of an identifier \<open>u\<close> is true exactly when some word
  of some page, not above the header threshold and inside the band of its page, has a
  stripped, upper-cased text equal to \<open>u\<close>; strings outside the set have no entry.
\<close>

theorem C7_exact_match:
  assumes "highlight_left_column_fast U (Some doc) utrs mx = Inr (out, fm, logs)"
  shows "fm u =
           (if u \<in> utrs
            then Some (\<exists>i < length doc. \<exists>w \<in> set (page_words (doc ! i)).
                         \<not> y0 w < rect_height (doc ! i) * 0.18 \<and>
                         x0_band (logs ! i) \<le> x0 w \<and> x1 w \<le> x1_band (logs ! i) \<and>
                         upper U (strip (wtxt w)) = u)
            else None)"
proof (cases "u \<in> utrs")
  case False
  then show ?thesis using assms by (auto simp: highlight_eq)
next
  case True
  have "(\<exists>pg \<in> set doc. u \<in> (\<lambda>w. upper U (strip (wtxt w))) ` set (page_hits U utrs mx pg)) \<longleftrightarrow>
        (\<exists>i < length doc. u \<in> (\<lambda>w. upper U (strip (wtxt w))) ` set (page_hits U utrs mx (doc ! i)))"
    by (metis in_set_conv_nth)
  also have "\<dots> \<longleftrightarrow> (\<exists>i < length doc. \<exists>w \<in> set (page_words (doc ! i)).
                         \<not> y0 w < rect_height (doc ! i) * 0.18 \<and>
                         x0_band (logs ! i) \<le> x0 w \<and> x1 w \<le> x1_band (logs ! i) \<and>
                         upper U (strip (wtxt w)) = u)"
  proof -
    have "u \<in> (\<lambda>w. upper U (strip (wtxt w))) ` set (page_hits U utrs mx (doc ! i)) \<longleftrightarrow>
          (\<exists>w \<in> set (page_words (doc ! i)).
              \<not> y0 w < rect_height (doc ! i) * 0.18 \<and>
              x0_band (logs ! i) \<le> x0 w \<and> x1 w \<le> x1_band (logs ! i) \<and>
              upper U (strip (wtxt w)) = u)" if "i < length doc" for i
      using True by (auto simp: page_hits_band [OF assms that])
    then show ?thesis by blast
  qed
  finally have eq: "(\<exists>pg \<in> set doc. u \<in> (\<lambda>w. upper U (strip (wtxt w))) ` set (page_hits U utrs mx pg)) \<longleftrightarrow>
        (\<exists>i < length doc. \<exists>w \<in> set (page_words (doc ! i)).
                         \<not> y0 w < rect_height (doc ! i) * 0.18 \<and>
                         x0_band (logs ! i) \<le> x0 w \<and> x1 w \<le> x1_band (logs ! i) \<and>
                         upper U (strip (wtxt w)) = u)" .
  have "fm u = Some (\<exists>pg \<in> set doc. u \<in> (\<lambda>w. upper U (strip (wtxt w))) ` set (page_hits U utrs mx pg))"
    using True assms by (auto simp: highlight_eq)
  then show ?thesis
    using True by (simp only: eq if_True)
qed

text \<open>
  The word \<open>Q143578A\<close> lies in the band of \<open>page_prefix\<close> and shares seven characters
  with the identifier \<open>Q1435783\<close>, whose flag stays false.
\<close>

theorem C7_exact_match_witness:
  "\<exists>out fm logs.
     highlight_left_column_fast ascii_only (Some [page_prefix]) {id1} None = Inr (out, fm, logs) \<and>
     fm id1 = Some False \<and> fm (py ''Q143578A'') = None"
proof -
  obtain out fm logs where
    r: "highlight_left_column_fast ascii_only (Some [page_prefix]) {id1} None = Inr (out, fm, logs)"
    by (metis highlight_left_column_fast_def option.simps(5) prod_cases3)
  have n: "upper ascii_only (strip (py ''Q143578A'')) \<noteq> id1" "py ''Q143578A'' \<noteq> id1"
    by (simp_all add: id1_def py_def upper_def strip_def isspace_def ascii_upper_def)
  show ?thesis
    using C7_exact_match [OF r, of id1] C7_exact_match [OF r, of "py ''Q143578A''"] r n
    by (simp add: page_prefix_def mk_page_def mk_word_def page_words_def)
qed

text \<open>
  C8. In one source the sheets and, in each, the header rows 0 to 4 are tried in order,
  and the first combination with a UTR-like label gives the tokens; later combinations
  are not read. A source none of whose combinations has such a label stops the loading
  with the error of that source, whatever comes after it, and the run with such a source
  among its spreadsheets returns an error and no output.
\<close>

theorem C8_first_match_or_abort:
  "scan_sheets U shs utrs =
     (case find (\<lambda>(sh, hdr). utr_column U sh hdr \<noteq> None) (List.product shs [0..<5]) of
        None \<Rightarrow> None
      | Some (sh, hdr) \<Rightarrow> map_option (\<lambda>c. add_tokens U (snd c) utrs) (utr_column U sh hdr)) \<and>
   (excel_sheets f = Some shs \<longrightarrow>
    (\<forall>sh \<in> set shs. \<forall>hdr < 5. utr_column U sh hdr = None) \<longrightarrow>
      (load_files U pre {} = Inr utrs' \<longrightarrow>
         load_utrs_from_excel U (pre @ f # post) = Inl (NoUtrColumn (excel_name f))) \<and>
      (f \<in> set excel_files \<longrightarrow>
         (\<exists>e. start U excel_files pdf_files manual_band manual_x1 = Inl e)))"
proof (intro conjI impI)
  show "scan_sheets U shs utrs =
     (case find (\<lambda>(sh, hdr). utr_column U sh hdr \<noteq> None) (List.product shs [0..<5]) of
        None \<Rightarrow> None
      | Some (sh, hdr) \<Rightarrow> map_option (\<lambda>c. add_tokens U (snd c) utrs) (utr_column U sh hdr))"
    by (rule scan_sheets_find)
next
  assume "excel_sheets f = Some shs"
     and "\<forall>sh \<in> set shs. \<forall>hdr < 5. utr_column U sh hdr = None"
     and "load_files U pre {} = Inr utrs'"
  then show "load_utrs_from_excel U (pre @ f # post) = Inl (NoUtrColumn (excel_name f))"
    by (simp add: load_utrs_from_excel_def load_files_app scan_sheets_none)
next
  assume a: "excel_sheets f = Some shs"
     "\<forall>sh \<in> set shs. \<forall>hdr < 5. utr_column U sh hdr = None"
     "f \<in> set excel_files"
  obtain e where "load_utrs_from_excel U excel_files = Inl e"
    using load_files_abort [OF a(3) a(1) a(2)] by (auto simp: load_utrs_from_excel_def)
  then show "\<exists>e. start U excel_files pdf_files manual_band manual_x1 = Inl e"
    by (simp add: start_def)
qed

text \<open>
  A source whose first sheet has its UTR column only from header row 3 on, and a second
  sheet with one at row 0: the tokens are those of the first sheet at row 3. A source
  without such a column after a good one: the loading and the run stop with its error.
\<close>

theorem C8_first_match_or_abort_witness:
  "scan_sheets ascii_only [sheet_late, sheet_next] {} = Some {py ''AB12CD34''} \<and>
   load_utrs_from_excel ascii_only [excel_ids, excel_no_utr, excel_ids] =
     Inl (NoUtrColumn (py ''misc.xlsx'')) \<and>
   (\<exists>e. start ascii_only [excel_ids, excel_no_utr] [pdf_hit] False 220 = Inl e)"
proof -
  have h: "looks_like_utr_header ascii_only (Some (py ''utr''))"
    by (simp add: looks_like_utr_header_def normalize_header_def replace_nbsp_def split_def
        py_def strip_def isspace_def lower_def ascii_lower_def ascii_only_def Let_def upt_rec)
  have t: "add_tokens ascii_only [Some (py ''ab12cd34'')] {} = {py ''AB12CD34''}"
    by (simp add: add_tokens_def extract_utrs_from_cell_def py_def strip_def isspace_def
        alnum_def upper_def ascii_upper_def)
  have u: "utr_column ascii_only sheet_late 3 =
             Some (Some (py ''UTR No''), [Some (py ''ab12cd34'')])"
    by (simp add: utr_column_def sheet_late_def header_utr_no)
  have f: "find (\<lambda>(sh, hdr). utr_column ascii_only sh hdr \<noteq> None)
             (List.product [sheet_late, sheet_next] [0..<5]) = Some (sheet_late, 3)"
    by (simp add: upt_0_5 utr_column_def sheet_late_def sheet_next_def header_utr_no
          header_date h)
  note c1 = C8_first_match_or_abort
    [of ascii_only "[sheet_late, sheet_next]" "{}", THEN conjunct1]
  note c2 = C8_first_match_or_abort
    [of ascii_only "[\<lambda>hdr. if hdr = 0
                         then Some [(Some (py ''Date''), [Some (py ''Q1435783'')])]
                         else None]" "{}" excel_no_utr "[excel_ids]" "{id1}" "[excel_ids]"
        "[excel_ids, excel_no_utr]" "[pdf_hit]" False 220, THEN conjunct2]
  have s: "excel_sheets excel_no_utr =
             Some [\<lambda>hdr. if hdr = 0
                         then Some [(Some (py ''Date''), [Some (py ''Q1435783'')])]
                         else None]"
    by (simp add: excel_no_utr_def)
  have n: "\<forall>sh \<in> set [\<lambda>hdr. if hdr = 0
                         then Some [(Some (py ''Date''), [Some (py ''Q1435783'')])]
                         else None].
             \<forall>hdr < 5. utr_column ascii_only sh hdr = None"
    by (simp add: utr_column_def header_date)
  have "scan_sheets ascii_only [sheet_late, sheet_next] {} = Some {py ''AB12CD34''}"
    by (simp only: c1 f option.case prod.case u option.map snd_conv t)
  moreover have l: "load_files ascii_only [excel_ids] {} = Inr {id1}"
    using load_ids by (simp add: load_utrs_from_excel_def)
  have "load_utrs_from_excel ascii_only ([excel_ids] @ excel_no_utr # [excel_ids]) =
          Inl (NoUtrColumn (excel_name excel_no_utr))"
    using c2 s n l by blast
  moreover have "\<exists>e. start ascii_only [excel_ids, excel_no_utr] [pdf_hit] False 220 = Inl e"
    using c2 s n by simp
  ultimately show ?thesis
    by (simp add: excel_no_utr_def)
qed

text \<open>
  C9. \<open>extract_utrs_from_cell\<close> returns exactly the runs of six or more ASCII letters and
  digits of the cell's text, and nothing for a missing cell; the tokens the cell adds to
  the identifier set are these runs in upper case, which is also what the reference
  tokenizer returns, for every text; and the set after a column is the set before with
  the tokens of the column's cells.
\<close>

theorem C9_tokenizer_equivalence:
  "extract_utrs_from_cell (Some s) = filter (\<lambda>r. 6 \<le> length r) (alnum_runs s) \<and>
   extract_utrs_from_cell None = [] \<and>
   cell_tokens U (Some s) = spec_tokens s \<and>
   cell_tokens U (Some s) = ref_tokenize s \<and>
   add_tokens U cells utrs = utrs \<union> (\<Union>val \<in> set cells. set (cell_tokens U val))"
proof -
  have "extract_utrs_from_cell (Some s) = filter (\<lambda>r. 6 \<le> length r) (alnum_runs s)"
    by (simp add: extract_utrs_from_cell_def findall_runs alnum_runs_strip)
  moreover have "cell_tokens U (Some s) = spec_tokens s"
    by (simp add: cell_tokens_eq spec_tokens_def)
  moreover have "spec_tokens s = ref_tokenize s"
    by (simp add: ref_tokenize_def spec_tokens_def alnum_runs_def alnum_runs_replace_nbsp)
  ultimately show ?thesis
    by (simp add: add_tokens_eq) (simp add: extract_utrs_from_cell_def)
qed

text \<open>
  A cell with non-breaking spaces between and after its words: the two runs of six or
  more characters, in upper case.
\<close>

theorem C9_tokenizer_equivalence_witness:
  "cell_tokens ascii_only (Some cell_nbsp) = [py ''Q1435783'', py ''AB12CD34''] \<and>
   ref_tokenize cell_nbsp = [py ''Q1435783'', py ''AB12CD34'']"
proof -
  have e: "ref_tokenize cell_nbsp = [py ''Q1435783'', py ''AB12CD34'']"
    by (simp add: ref_tokenize_def spec_tokens_def alnum_runs_def replace_nbsp_def
          cell_nbsp_def py_def alnum_def ascii_upper_def)
  have c: "cell_tokens ascii_only (Some cell_nbsp) = ref_tokenize cell_nbsp"
    by (rule C9_tokenizer_equivalence [of cell_nbsp ascii_only "[]" "{}",
          THEN conjunct2, THEN conjunct2, THEN conjunct2, THEN conjunct1])
  show ?thesis
    by (simp add: c e)
qed

text \<open>
  C10. With a manual right boundary \<open>m\<close> the band of every page is \<open>[page_left, m]\<close>
  and the mode is \<open>manual\<close>, whatever the page's right edge is; without one the mode is
  another and the band ends at or before the page's right edge.
\<close>

theorem C10_manual_band:
  assumes "highlight_left_column_fast U (Some doc) utrs (Some m) = Inr (out, fm, logs)"
      and "highlight_left_column_fast U (Some doc) utrs None = Inr (out', fm', logs')"
      and "i < length doc"
  shows "x0_band (logs ! i) = rect_x0 (doc ! i) \<and> x1_band (logs ! i) = m \<and>
         band_mode (logs ! i) = Manual \<and>
         band_mode (logs' ! i) \<noteq> Manual \<and> x1_band (logs' ! i) \<le> rect_x1 (doc ! i)"
proof -
  have "page_band U utrs (Some m) (doc ! i) = (rect_x0 (doc ! i), m, Manual)"
    by (simp add: page_band_def compute_band_def)
  then have man: "x0_band (logs ! i) = rect_x0 (doc ! i) \<and> x1_band (logs ! i) = m \<and>
         band_mode (logs ! i) = Manual"
    using logs_nth [OF assms(1,3)] by (simp add: page_entry_def)
  obtain a b md where pb: "page_band U utrs None (doc ! i) = (a, b, md)"
    by (metis prod_cases3)
  then have "md \<noteq> Manual \<and> b \<le> rect_x1 (doc ! i)"
    by (auto simp: page_band_def compute_band_def split: option.splits)
  then have "band_mode (logs' ! i) \<noteq> Manual \<and> x1_band (logs' ! i) \<le> rect_x1 (doc ! i)"
    using logs_nth [OF assms(2,3)] pb by (simp add: page_entry_def)
  with man show ?thesis by simp
qed

text \<open>
  A page 300 wide with the manual boundary 480: the band goes past the page.
\<close>

theorem C10_manual_band_witness:
  "\<exists>out fm logs out' fm' logs'.
     highlight_left_column_fast ascii_only (Some [page_narrow]) {id1} (Some 480) = Inr (out, fm, logs) \<and>
     highlight_left_column_fast ascii_only (Some [page_narrow]) {id1} None = Inr (out', fm', logs') \<and>
     rect_x1 page_narrow = 300 \<and>
     x0_band (logs ! 0) = 0 \<and> x1_band (logs ! 0) = 480 \<and> band_mode (logs ! 0) = Manual \<and>
     x1_band (logs' ! 0) \<le> 300"
proof -
  obtain out fm logs where
    r: "highlight_left_column_fast ascii_only (Some [page_narrow]) {id1} (Some 480) = Inr (out, fm, logs)"
    by (metis highlight_left_column_fast_def option.simps(5) prod_cases3)
  obtain out' fm' logs' where
    r': "highlight_left_column_fast ascii_only (Some [page_narrow]) {id1} None = Inr (out', fm', logs')"
    by (metis highlight_left_column_fast_def option.simps(5) prod_cases3)
  show ?thesis
    using C10_manual_band [OF r r', of 0] r r' by (simp add: page_narrow_def mk_page_def)
qed

end
